theory Spec2Isabelle
  imports Main "HOL-Library.Word"
begin

unbundle bit_operations_syntax

section \<open>The hash table of ht.h\<close>

subsection \<open>Data model\<close>

text \<open>
  The library is compiled for an LP64 target: \<^verbatim>\<open>size_t\<close>, \<^verbatim>\<open>uint64_t\<close> and the \<^verbatim>\<open>UL\<close>
  constants are 64-bit unsigned integers, whose arithmetic wraps around. A \<^verbatim>\<open>void *\<close> is
  its address, the null pointer being address 0.
\<close>

type_synonym size_t = "64 word"
type_synonym uint64_t = "64 word"
type_synonym ptr = "64 word"

definition NULL :: ptr where
  "NULL = 0"

text \<open>
  A non-null \<^verbatim>\<open>const char *\<close> is the address it holds together with the bytes found there,
  up to and excluding the terminating NUL. Two pointers can differ and still point to equal
  strings. The null \<^verbatim>\<open>const char *\<close> is \<open>None\<close>.
\<close>

datatype cstr = Cstr (addr: "64 word") (bytes: string)

text \<open>
  What C leaves undefined is a fault of the model: the remainder of a division by zero, a
  read through a null pointer, an access outside an allocated array. A call that has a
  loop which may run forever returns an option, \<open>None\<close> when it does not return.
\<close>

datatype fault = DivByZero | NullDeref | OutOfBounds

record ht_entry =
  key :: "cstr option"
  "value" :: ptr

record Map =
  ht :: "ht_entry list"
  capacity :: size_t
  items :: size_t

text \<open>
  The entry that \<^verbatim>\<open>calloc\<close> leaves in every slot, all bits zero, and the array that a
  \<^verbatim>\<open>calloc\<close> which succeeds returns. The source tests no result of \<^verbatim>\<open>malloc\<close> or \<^verbatim>\<open>calloc\<close>: the
  operations of this subsection are the code on the runs where every allocation succeeds,
  and the subsection on the map in memory has the runs where one fails.
\<close>

definition zero_entry :: ht_entry where
  "zero_entry = \<lparr>key = None, value = NULL\<rparr>"

definition calloc :: "size_t \<Rightarrow> ht_entry list" where
  "calloc n = replicate (unat n) zero_entry"

subsection \<open>Operations\<close>

definition ht_length :: "Map \<Rightarrow> size_t" where
  "ht_length m = items m"

text \<open>\<^verbatim>\<open>ht_new_map\<close> when both its allocations succeed.\<close>

definition ht_new_map :: "size_t \<Rightarrow> Map" where
  "ht_new_map c = \<lparr>ht = calloc c, capacity = c, items = 0\<rparr>"

definition FNV_OFFSET_BASIS :: uint64_t where
  "FNV_OFFSET_BASIS = 14695981039346656037"

definition FNV_PRIME :: uint64_t where
  "FNV_PRIME = 1099511628211"

text \<open>
  The loop of \<^verbatim>\<open>ht__hash\<close> over the bytes before the terminator; the empty list is the
  terminator being read.
\<close>

fun ht__hash_loop :: "uint64_t \<Rightarrow> string \<Rightarrow> uint64_t" where
  "ht__hash_loop hash [] = hash"
| "ht__hash_loop hash (c # cs) = ht__hash_loop ((hash XOR of_char c) * FNV_PRIME) cs"

definition ht__hash :: "cstr option \<Rightarrow> fault + uint64_t" where
  "ht__hash k =
     (case k of
        None \<Rightarrow> Inl NullDeref
      | Some s \<Rightarrow> Inr (ht__hash_loop FNV_OFFSET_BASIS (bytes s)))"

text \<open>
  \<^verbatim>\<open>strcmp\<close> of the C library: zero when the two strings are equal, otherwise the sign of
  the difference of the first bytes that differ, a string that ends first being the smaller.
\<close>

fun strcmp_bytes :: "string \<Rightarrow> string \<Rightarrow> int" where
  "strcmp_bytes [] [] = 0"
| "strcmp_bytes [] (b # bs) = - 1"
| "strcmp_bytes (a # as) [] = 1"
| "strcmp_bytes (a # as) (b # bs) =
     (if a = b then strcmp_bytes as bs
      else if (of_char a :: nat) < of_char b then - 1 else 1)"

definition strcmp :: "cstr option \<Rightarrow> cstr option \<Rightarrow> fault + int" where
  "strcmp s1 s2 =
     (case s1 of
        None \<Rightarrow> Inl NullDeref
      | Some a \<Rightarrow>
          (case s2 of
             None \<Rightarrow> Inl NullDeref
           | Some b \<Rightarrow> Inr (strcmp_bytes (bytes a) (bytes b))))"

text \<open>
  \<^verbatim>\<open>ht_entry_set\<close>: the probe loop and the insertion after it. The result is the map as
  the call leaves it and the pointer returned.
\<close>

partial_function (option) ht_entry_set ::
  "Map \<Rightarrow> size_t \<Rightarrow> cstr option \<Rightarrow> ptr \<Rightarrow> (fault + Map \<times> cstr option) option"
where
  "ht_entry_set m index k v =
     (if length (ht m) \<le> unat index then Some (Inl OutOfBounds)
      else if value (ht m ! unat index) \<noteq> NULL then
        (case strcmp (key (ht m ! unat index)) k of
           Inl f \<Rightarrow> Some (Inl f)
         | Inr c \<Rightarrow>
             if c = 0 then
               Some (Inr (m\<lparr>ht := (ht m)[unat index := (ht m ! unat index)\<lparr>value := v\<rparr>]\<rparr>,
                          key (ht m ! unat index)))
             else ht_entry_set m (if capacity m \<le> index + 1 then 0 else index + 1) k v)
      else
        Some (Inr (m\<lparr>ht := (ht m)[unat index := \<lparr>key = k, value = v\<rparr>],
                     items := items m + 1\<rparr>, k)))"

declare ht_entry_set.simps [code]

text \<open>
  The copy loop of \<^verbatim>\<open>ht_expand\<close>: \<open>i\<close> runs from its start value to \<^verbatim>\<open>ht_length(m)\<close>, the
  number of items, and a slot whose key is not null is copied to the same index of the new
  array.
\<close>

function ht_expand_loop :: "Map \<Rightarrow> ht_entry list \<Rightarrow> size_t \<Rightarrow> fault + ht_entry list" where
  "ht_expand_loop m new_entries i =
     (if i < ht_length m then
        (if length (ht m) \<le> unat i then Inl OutOfBounds
         else if key (ht m ! unat i) \<noteq> None then
           (if length new_entries \<le> unat i then Inl OutOfBounds
            else ht_expand_loop m (new_entries[unat i := ht m ! unat i]) (i + 1))
         else ht_expand_loop m new_entries (i + 1))
      else Inr new_entries)"
  by pat_completeness auto
termination
proof (relation "measure (\<lambda>(m, new_entries, i). unat (ht_length m) - unat i)")
  show "wf (measure (\<lambda>(m, new_entries, i). unat (ht_length m) - unat i))"
    by simp
next
  fix m :: Map and new_entries :: "ht_entry list" and i :: size_t
  assume "i < ht_length m"
  then have "unat (i + 1) = unat i + 1" and "unat i < unat (ht_length m)"
    by unat_arith+
  then show "((m, new_entries[unat i := ht m ! unat i], i + 1), (m, new_entries, i))
      \<in> measure (\<lambda>(m, new_entries, i). unat (ht_length m) - unat i)"
    and "((m, new_entries, i + 1), (m, new_entries, i))
      \<in> measure (\<lambda>(m, new_entries, i). unat (ht_length m) - unat i)"
    by simp_all
qed

declare ht_expand_loop.simps [simp del]

text \<open>
  \<^verbatim>\<open>ht_expand\<close> returns \<open>- 1\<close> and leaves the map as it is when doubling the capacity wraps
  around, and 0 with the new array otherwise; here its \<^verbatim>\<open>calloc\<close> succeeds.
\<close>

definition ht_expand :: "Map \<Rightarrow> fault + int \<times> Map" where
  "ht_expand m =
     (let new_cap = capacity m * 2 in
      if new_cap < capacity m then Inr (- 1, m)
      else
        (case ht_expand_loop m (calloc new_cap) 0 of
           Inl f \<Rightarrow> Inl f
         | Inr new_entries \<Rightarrow> Inr (0, m\<lparr>capacity := new_cap, ht := new_entries\<rparr>)))"

text \<open>The last three lines of \<^verbatim>\<open>ht_set\<close>: hash, index and the call of \<^verbatim>\<open>ht_entry_set\<close>.\<close>

definition ht_set_at_hash ::
  "Map \<Rightarrow> cstr option \<Rightarrow> ptr \<Rightarrow> (fault + Map \<times> cstr option) option"
where
  "ht_set_at_hash m k v =
     (case ht__hash k of
        Inl f \<Rightarrow> Some (Inl f)
      | Inr hash \<Rightarrow>
          if capacity m = 0 then Some (Inl DivByZero)
          else ht_entry_set m (hash mod capacity m) k v)"

definition ht_set :: "Map \<Rightarrow> cstr option \<Rightarrow> ptr \<Rightarrow> (fault + Map \<times> cstr option) option" where
  "ht_set m k v =
     (if k = None then Some (Inr (m, None))
      else if capacity m div 2 \<le> ht_length m then
        (case ht_expand m of
           Inl f \<Rightarrow> Some (Inl f)
         | Inr (rc, m') \<Rightarrow>
             if rc < 0 then Some (Inr (m', None))
             else ht_set_at_hash m' k v)
      else ht_set_at_hash m k v)"

partial_function (option) ht_get_loop ::
  "Map \<Rightarrow> size_t \<Rightarrow> cstr option \<Rightarrow> (fault + ptr) option"
where
  "ht_get_loop m index k =
     (if length (ht m) \<le> unat index then Some (Inl OutOfBounds)
      else if value (ht m ! unat index) \<noteq> NULL then
        (case strcmp (key (ht m ! unat index)) k of
           Inl f \<Rightarrow> Some (Inl f)
         | Inr c \<Rightarrow>
             if c = 0 then Some (Inr (value (ht m ! unat index)))
             else ht_get_loop m (if capacity m \<le> index + 1 then 0 else index + 1) k)
      else Some (Inr NULL))"

declare ht_get_loop.simps [code]

definition ht_get :: "Map \<Rightarrow> cstr option \<Rightarrow> (fault + ptr) option" where
  "ht_get m k =
     (case ht__hash k of
        Inl f \<Rightarrow> Some (Inl f)
      | Inr hash \<Rightarrow>
          if capacity m = 0 then Some (Inl DivByZero)
          else ht_get_loop m (hash mod capacity m) k)"

text \<open>
  A caller that makes one \<^verbatim>\<open>ht_set\<close> call after the other on the same map and ignores the
  pointers returned, as the test \<^verbatim>\<open>map_expand\<close> does. It stops at the first call that faults
  or does not return.
\<close>

fun ht_set_all :: "Map \<Rightarrow> (cstr option \<times> ptr) list \<Rightarrow> (fault + Map) option" where
  "ht_set_all m [] = Some (Inr m)"
| "ht_set_all m ((k, v) # kvs) =
     (case ht_set m k v of
        None \<Rightarrow> None
      | Some (Inl f) \<Rightarrow> Some (Inl f)
      | Some (Inr (m', r)) \<Rightarrow> ht_set_all m' kvs)"

text \<open>The string literals of the tests, each at an address of its own.\<close>

definition foo :: cstr where
  "foo = Cstr 4096 ''foo''"

definition bar :: cstr where
  "bar = Cstr 4100 ''bar''"

definition key_a :: cstr where
  "key_a = Cstr 8192 ''a''"

definition key_b :: cstr where
  "key_b = Cstr 8194 ''b''"

definition key_c :: cstr where
  "key_c = Cstr 8196 ''c''"

text \<open>A second copy of the string "foo", at another address.\<close>

definition foo_copy :: cstr where
  "foo_copy = Cstr 20480 ''foo''"

text \<open>A map of four slots that holds "foo", before and after its value is replaced.\<close>

definition one_foo :: Map where
  "one_foo = \<lparr>ht = [zero_entry, zero_entry, zero_entry, \<lparr>key = Some foo, value = 2\<rparr>],
     capacity = 4, items = 1\<rparr>"

definition one_foo_updated :: Map where
  "one_foo_updated = \<lparr>ht = [zero_entry, zero_entry, zero_entry, \<lparr>key = Some foo, value = 7\<rparr>],
     capacity = 4, items = 1\<rparr>"

subsection \<open>The hash as the specification words it\<close>

text \<open>
  The 64-bit FNV-1a digest on natural numbers, with the reduction modulo \<open>2 ^ 64\<close> written
  out: from the offset basis, each byte in turn is XORed into the accumulator, which is
  then multiplied by the prime.
\<close>

definition fnv1a_step_spec :: "nat \<Rightarrow> char \<Rightarrow> nat" where
  "fnv1a_step_spec acc b = ((acc XOR of_char b) * 1099511628211) mod 2 ^ 64"

definition fnv1a_64_spec :: "string \<Rightarrow> nat" where
  "fnv1a_64_spec bs = foldl fnv1a_step_spec 14695981039346656037 bs"

subsection \<open>Probing with a bound on the number of steps\<close>

text \<open>
  The two probe loops again, each with a budget of tests of its loop condition: the
  result is \<open>None\<close> when the budget is used up before the loop is left. The bounded
  operations give each probe as many steps as the map it probes has slots.
\<close>

fun ht_entry_set_fuel ::
  "nat \<Rightarrow> Map \<Rightarrow> size_t \<Rightarrow> cstr option \<Rightarrow> ptr \<Rightarrow> (fault + Map \<times> cstr option) option"
where
  "ht_entry_set_fuel 0 m index k v = None"
| "ht_entry_set_fuel (Suc n) m index k v =
     (if length (ht m) \<le> unat index then Some (Inl OutOfBounds)
      else if value (ht m ! unat index) \<noteq> NULL then
        (case strcmp (key (ht m ! unat index)) k of
           Inl f \<Rightarrow> Some (Inl f)
         | Inr c \<Rightarrow>
             if c = 0 then
               Some (Inr (m\<lparr>ht := (ht m)[unat index := (ht m ! unat index)\<lparr>value := v\<rparr>]\<rparr>,
                          key (ht m ! unat index)))
             else ht_entry_set_fuel n m (if capacity m \<le> index + 1 then 0 else index + 1) k v)
      else
        Some (Inr (m\<lparr>ht := (ht m)[unat index := \<lparr>key = k, value = v\<rparr>],
                     items := items m + 1\<rparr>, k)))"


definition ht_set_at_hash_bounded ::
  "Map \<Rightarrow> cstr option \<Rightarrow> ptr \<Rightarrow> (fault + Map \<times> cstr option) option"
where
  "ht_set_at_hash_bounded m k v =
     (case ht__hash k of
        Inl f \<Rightarrow> Some (Inl f)
      | Inr hash \<Rightarrow>
          if capacity m = 0 then Some (Inl DivByZero)
          else ht_entry_set_fuel (unat (capacity m)) m (hash mod capacity m) k v)"

definition ht_set_bounded ::
  "Map \<Rightarrow> cstr option \<Rightarrow> ptr \<Rightarrow> (fault + Map \<times> cstr option) option"
where
  "ht_set_bounded m k v =
     (if k = None then Some (Inr (m, None))
      else if capacity m div 2 \<le> ht_length m then
        (case ht_expand m of
           Inl f \<Rightarrow> Some (Inl f)
         | Inr (rc, m') \<Rightarrow>
             if rc < 0 then Some (Inr (m', None))
             else ht_set_at_hash_bounded m' k v)
      else ht_set_at_hash_bounded m k v)"


subsection \<open>The map in memory, with allocations that can fail\<close>

text \<open>
  The struct \<^verbatim>\<open>Map\<close> as it lies in memory: its pointer \<^verbatim>\<open>ht\<close> is null, \<open>None\<close>, when the
  \<^verbatim>\<open>calloc\<close> whose result was stored there had failed.
\<close>

record Map_mem =
  ht_mem :: "ht_entry list option"
  capacity_mem :: size_t
  items_mem :: size_t

text \<open>A map whose array is allocated, as it lies in memory.\<close>

definition mem_of :: "Map \<Rightarrow> Map_mem" where
  "mem_of m = \<lparr>ht_mem = Some (ht m), capacity_mem = capacity m, items_mem = items m\<rparr>"

text \<open>
  \<^verbatim>\<open>calloc(n, sizeof(ht_entry))\<close>: the zeroed array when the allocator has the memory for \<open>n\<close>
  entries, which \<open>avail\<close> tells, and the null pointer otherwise. No allocator has it for a
  request beyond the address space, \<open>2 ^ 60\<close> entries of 16 bytes or more.
\<close>

definition calloc_mem :: "(size_t \<Rightarrow> bool) \<Rightarrow> size_t \<Rightarrow> ht_entry list option" where
  "calloc_mem avail n = (if avail n then Some (calloc n) else None)"

text \<open>
  \<^verbatim>\<open>ht_new_map\<close>: the result of \<^verbatim>\<open>malloc\<close> is not tested, so the first assignment writes
  through the null pointer when it failed; the result of \<^verbatim>\<open>calloc\<close> is stored as it is.
\<close>

definition ht_new_map_mem :: "bool \<Rightarrow> (size_t \<Rightarrow> bool) \<Rightarrow> size_t \<Rightarrow> fault + Map_mem" where
  "ht_new_map_mem malloc_ok avail c =
     (if \<not> malloc_ok then Inl NullDeref
      else Inr \<lparr>ht_mem = calloc_mem avail c, capacity_mem = c, items_mem = 0\<rparr>)"

text \<open>
  The copy loop of \<^verbatim>\<open>ht_expand\<close> where the old and the new array can each be null: reading
  \<^verbatim>\<open>m->ht[i]\<close> and writing \<^verbatim>\<open>new_entries[i]\<close> through a null pointer are faults.
\<close>

function ht_expand_loop_mem ::
  "Map_mem \<Rightarrow> ht_entry list option \<Rightarrow> size_t \<Rightarrow> fault + ht_entry list option"
where
  "ht_expand_loop_mem mm new_entries i =
     (if i < items_mem mm then
        (case ht_mem mm of
           None \<Rightarrow> Inl NullDeref
         | Some es \<Rightarrow>
             if length es \<le> unat i then Inl OutOfBounds
             else if key (es ! unat i) \<noteq> None then
               (case new_entries of
                  None \<Rightarrow> Inl NullDeref
                | Some new \<Rightarrow>
                    if length new \<le> unat i then Inl OutOfBounds
                    else ht_expand_loop_mem mm (Some (new[unat i := es ! unat i])) (i + 1))
             else ht_expand_loop_mem mm new_entries (i + 1))
      else Inr new_entries)"
  by pat_completeness auto
termination
proof (relation "measure (\<lambda>(mm, new_entries, i). unat (items_mem mm) - unat i)")
  show "wf (measure (\<lambda>(mm, new_entries, i). unat (items_mem mm) - unat i))"
    by simp
next
  fix mm :: Map_mem and new_entries :: "ht_entry list option" and i :: size_t
    and es new :: "ht_entry list"
  assume "i < items_mem mm"
  then have "unat (i + 1) = unat i + 1" and "unat i < unat (items_mem mm)"
    by unat_arith+
  then show "((mm, Some (new[unat i := es ! unat i]), i + 1), (mm, new_entries, i))
      \<in> measure (\<lambda>(mm, new_entries, i). unat (items_mem mm) - unat i)"
    and "((mm, new_entries, i + 1), (mm, new_entries, i))
      \<in> measure (\<lambda>(mm, new_entries, i). unat (items_mem mm) - unat i)"
    by simp_all
qed

declare ht_expand_loop_mem.simps [simp del]

text \<open>
  \<^verbatim>\<open>ht_expand\<close>: the result of \<^verbatim>\<open>calloc\<close> is not tested; after the loop it is stored in the
  map with the doubled capacity, and the function returns 0.
\<close>

definition ht_expand_mem :: "(size_t \<Rightarrow> bool) \<Rightarrow> Map_mem \<Rightarrow> fault + int \<times> Map_mem" where
  "ht_expand_mem avail mm =
     (let new_cap = capacity_mem mm * 2 in
      if new_cap < capacity_mem mm then Inr (- 1, mm)
      else
        (case ht_expand_loop_mem mm (calloc_mem avail new_cap) 0 of
           Inl f \<Rightarrow> Inl f
         | Inr new_entries \<Rightarrow> Inr (0, mm\<lparr>capacity_mem := new_cap, ht_mem := new_entries\<rparr>)))"

text \<open>
  \<^verbatim>\<open>ht_entry_set\<close>: on a null array the first test of the loop reads through the null
  pointer; on an allocated array it is the loop above.
\<close>

definition ht_entry_set_mem ::
  "Map_mem \<Rightarrow> size_t \<Rightarrow> cstr option \<Rightarrow> ptr \<Rightarrow> (fault + Map_mem \<times> cstr option) option"
where
  "ht_entry_set_mem mm index k v =
     (case ht_mem mm of
        None \<Rightarrow> Some (Inl NullDeref)
      | Some es \<Rightarrow>
          (case ht_entry_set \<lparr>ht = es, capacity = capacity_mem mm, items = items_mem mm\<rparr>
                  index k v of
             None \<Rightarrow> None
           | Some (Inl f) \<Rightarrow> Some (Inl f)
           | Some (Inr (m', r)) \<Rightarrow> Some (Inr (mem_of m', r))))"

text \<open>
  \<^verbatim>\<open>ht_set\<close> on the map in memory: the guard on the key, the growth when it is due, whose
  \<^verbatim>\<open>calloc\<close> can fail, then hash, index and \<^verbatim>\<open>ht_entry_set\<close>.
\<close>

definition ht_set_at_hash_mem ::
  "Map_mem \<Rightarrow> cstr option \<Rightarrow> ptr \<Rightarrow> (fault + Map_mem \<times> cstr option) option"
where
  "ht_set_at_hash_mem mm k v =
     (case ht__hash k of
        Inl f \<Rightarrow> Some (Inl f)
      | Inr hash \<Rightarrow>
          if capacity_mem mm = 0 then Some (Inl DivByZero)
          else ht_entry_set_mem mm (hash mod capacity_mem mm) k v)"

definition ht_set_mem ::
  "(size_t \<Rightarrow> bool) \<Rightarrow> Map_mem \<Rightarrow> cstr option \<Rightarrow> ptr \<Rightarrow> (fault + Map_mem \<times> cstr option) option"
where
  "ht_set_mem avail mm k v =
     (if k = None then Some (Inr (mm, None))
      else if capacity_mem mm div 2 \<le> items_mem mm then
        (case ht_expand_mem avail mm of
           Inl f \<Rightarrow> Some (Inl f)
         | Inr (rc, mm') \<Rightarrow>
             if rc < 0 then Some (Inr (mm', None))
             else ht_set_at_hash_mem mm' k v)
      else ht_set_at_hash_mem mm k v)"

text \<open>\<^verbatim>\<open>ht_get\<close>, whose loop reads through \<^verbatim>\<open>m->ht\<close> at its first test.\<close>

definition ht_get_mem :: "Map_mem \<Rightarrow> cstr option \<Rightarrow> (fault + ptr) option" where
  "ht_get_mem mm k =
     (case ht__hash k of
        Inl f \<Rightarrow> Some (Inl f)
      | Inr hash \<Rightarrow>
          if capacity_mem mm = 0 then Some (Inl DivByZero)
          else
            (case ht_mem mm of
               None \<Rightarrow> Some (Inl NullDeref)
             | Some es \<Rightarrow>
                 ht_get_loop \<lparr>ht = es, capacity = capacity_mem mm, items = items_mem mm\<rparr>
                   (hash mod capacity_mem mm) k))"

text \<open>The map of capacity 2 that holds "a", as \<^verbatim>\<open>ht_set\<close> leaves a new map of that capacity.\<close>

definition one_a :: Map where
  "one_a = \<lparr>ht = [\<lparr>key = Some key_a, value = 1\<rparr>, zero_entry], capacity = 2, items = 1\<rparr>"

subsection \<open>Slots and invariants\<close>

text \<open>The occupied slots that hold a key equal to \<open>k\<close>, in the order of the array.\<close>

definition key_slots :: "Map \<Rightarrow> cstr option \<Rightarrow> nat list" where
  "key_slots m k =
     filter (\<lambda>i. value (ht m ! i) \<noteq> NULL \<and> strcmp (key (ht m ! i)) k = Inr 0)
       [0..<length (ht m)]"

text \<open>The indices of the occupied slots of an array: those whose value is not null.\<close>

definition occupied :: "ht_entry list \<Rightarrow> nat set" where
  "occupied es = {i. i < length es \<and> value (es ! i) \<noteq> NULL}"

text \<open>
  What holds of a map between two calls when it was created with a capacity that is not
  zero: the array has \<open>capacity\<close> slots, no more slots are occupied than \<open>items\<close> counts, and
  every occupied slot has a key.
\<close>

definition map_inv :: "Map \<Rightarrow> bool" where
  "map_inv m \<longleftrightarrow>
     length (ht m) = unat (capacity m) \<and> capacity m \<noteq> 0 \<and>
     card (occupied (ht m)) \<le> unat (items m) \<and>
     (\<forall>e \<in> set (ht m). value e \<noteq> NULL \<longrightarrow> key e \<noteq> None)"

text \<open>
  The entry at index \<open>j\<close> of the new array when the copy loop of \<^verbatim>\<open>ht_expand\<close>, entered
  with counter \<open>i\<close> and the array \<open>new\<close>, is over.
\<close>

definition copied :: "Map \<Rightarrow> ht_entry list \<Rightarrow> size_t \<Rightarrow> nat \<Rightarrow> ht_entry" where
  "copied m new i j =
     (if unat i \<le> j \<and> j < unat (items m) \<and> key (ht m ! j) \<noteq> None then ht m ! j
      else new ! j)"

text \<open>
  What a returning call of \<^verbatim>\<open>ht_entry_set\<close> has done to the map \<open>m\<close>: it has stopped at a slot
  \<open>i\<close> that was empty, written key and value there, counted the item and returned the key
  given; or it has stopped at an occupied slot with an equal key, replaced the value only
  and returned the key stored.
\<close>

definition entry_set_post ::
  "Map \<Rightarrow> cstr option \<Rightarrow> ptr \<Rightarrow> Map \<Rightarrow> cstr option \<Rightarrow> nat \<Rightarrow> bool"
where
  "entry_set_post m k v m' r i \<longleftrightarrow>
     i < length (ht m) \<and>
     (if value (ht m ! i) = NULL
      then m' = m\<lparr>ht := (ht m)[i := \<lparr>key = k, value = v\<rparr>], items := items m + 1\<rparr> \<and> r = k
      else strcmp (key (ht m ! i)) k = Inr 0 \<and>
           m' = m\<lparr>ht := (ht m)[i := (ht m ! i)\<lparr>value := v\<rparr>]\<rparr> \<and> r = key (ht m ! i))"

section \<open>The hash function\<close>

lemma unat_of_char: "unat (of_char c :: 64 word) = of_char c"
proof -
  have "(of_char c :: nat) < 256"
    by (rule nat_of_char_less_256)
  also have "(256 :: nat) < 2 ^ 64"
    by simp
  finally have "(of_char c :: nat) < 2 ^ 64" .
  then have "unat (of_nat (of_char c) :: 64 word) = of_char c"
    by (simp add: unat_of_nat)
  then show ?thesis
    by (simp only: of_nat_of_char)
qed

lemma unat_hash_step:
  "unat ((h XOR of_char c) * FNV_PRIME :: 64 word) = fnv1a_step_spec (unat h) c"
  by (simp add: fnv1a_step_spec_def FNV_PRIME_def unat_word_ariths unsigned_xor_eq unat_of_char)

lemma unat_ht__hash_loop: "unat (ht__hash_loop h bs) = foldl fnv1a_step_spec (unat h) bs"
  by (induction bs arbitrary: h) (simp_all add: unat_hash_step)

text \<open>
  C8. For every key, \<^verbatim>\<open>ht__hash\<close> returns the 64-bit FNV-1a digest of its bytes: the number
  the specification's computation gives, which is below \<open>2 ^ 64\<close>. The result is a function
  of the bytes alone, so it is the same at every call.
\<close>

theorem ht__hash_fnv1a:
  "ht__hash (Some k) = Inr (of_nat (fnv1a_64_spec (bytes k))) \<and> fnv1a_64_spec (bytes k) < 2 ^ 64"
proof -
  have "unat (ht__hash_loop FNV_OFFSET_BASIS (bytes k)) = fnv1a_64_spec (bytes k)"
    by (simp add: unat_ht__hash_loop fnv1a_64_spec_def FNV_OFFSET_BASIS_def)
  moreover have "unat (ht__hash_loop FNV_OFFSET_BASIS (bytes k)) < 2 ^ 64"
    using unsigned_less [of "ht__hash_loop FNV_OFFSET_BASIS (bytes k)"] by simp
  ultimately show ?thesis
    by (simp add: ht__hash_def flip: word_unat_eq_iff) (metis of_nat_unat ucast_id)
qed

section \<open>What the probe loops return\<close>

lemma ht_entry_set_post_aux:
  assumes ret: "ht_entry_set m0 index0 k0 v0 = Some y0"
  shows "\<forall>m' r. y0 = Inr (m', r) \<longrightarrow> (\<exists>i. entry_set_post m0 k0 v0 m' r i)"
proof (rule ht_entry_set.raw_induct
    [where P = "\<lambda>m index k v y. \<forall>m' r. y = Inr (m', r) \<longrightarrow> (\<exists>i. entry_set_post m k v m' r i)",
     OF _ ret])
  fix f :: "Map \<Rightarrow> size_t \<Rightarrow> cstr option \<Rightarrow> ptr \<Rightarrow> (fault + Map \<times> cstr option) option"
    and m index k v y
  assume IH: "\<And>m index k v y. f m index k v = Some y \<Longrightarrow>
      \<forall>m' r. y = Inr (m', r) \<longrightarrow> (\<exists>i. entry_set_post m k v m' r i)"
  assume body: "(if length (ht m) \<le> unat index then Some (Inl OutOfBounds)
      else if value (ht m ! unat index) \<noteq> NULL then
        (case strcmp (key (ht m ! unat index)) k of
           Inl f \<Rightarrow> Some (Inl f)
         | Inr c \<Rightarrow>
             if c = 0 then
               Some (Inr (m\<lparr>ht := (ht m)[unat index := (ht m ! unat index)\<lparr>value := v\<rparr>]\<rparr>,
                          key (ht m ! unat index)))
             else f m (if capacity m \<le> index + 1 then 0 else index + 1) k v)
      else
        Some (Inr (m\<lparr>ht := (ht m)[unat index := \<lparr>key = k, value = v\<rparr>],
                     items := items m + 1\<rparr>, k))) = Some y"
  show "\<forall>m' r. y = Inr (m', r) \<longrightarrow> (\<exists>i. entry_set_post m k v m' r i)"
  proof (intro allI impI)
    fix m' r
    assume y: "y = Inr (m', r)"
    show "\<exists>i. entry_set_post m k v m' r i"
    proof (cases "value (ht m ! unat index) = NULL")
      case True
      with body y have "entry_set_post m k v m' r (unat index)"
        by (auto simp: entry_set_post_def split: if_splits)
      then show ?thesis ..
    next
      case False
      show ?thesis
      proof (cases "strcmp (key (ht m ! unat index)) k = Inr 0")
        case True
        with False body y have "entry_set_post m k v m' r (unat index)"
          by (auto simp: entry_set_post_def split: if_splits)
        then show ?thesis ..
      next
        case ne: False
        with False body y
        have "f m (if capacity m \<le> index + 1 then 0 else index + 1) k v = Some y"
          by (auto split: if_splits sum.splits)
        then show ?thesis
          using IH y by blast
      qed
    qed
  qed
qed

lemma ht_entry_set_post:
  "ht_entry_set m index k v = Some (Inr (m', r)) \<Longrightarrow> \<exists>i. entry_set_post m k v m' r i"
  using ht_entry_set_post_aux by blast

lemma ht_entry_set_fuel_sound:
  "ht_entry_set_fuel n m index k v = Some y \<Longrightarrow> ht_entry_set m index k v = Some y"
proof (induction n arbitrary: index)
  case 0
  then show ?case by simp
next
  case (Suc n)
  show ?case
    using Suc.prems Suc.IH
    by (subst ht_entry_set.simps) (auto split: if_splits sum.splits)
qed


section \<open>Word arithmetic of the indices\<close>

lemma unat_double:
  fixes c :: "64 word"
  assumes "\<not> c * 2 < c"
  shows "unat (c * 2) = 2 * unat c"
proof (rule ccontr)
  assume ne: "unat (c * 2) \<noteq> 2 * unat c"
  have m: "unat (c * 2) = (unat c * 2) mod 2 ^ 64"
    by (simp add: unat_word_ariths)
  have b: "unat c < 2 ^ 64"
    using unsigned_less [of c] by simp
  have ge: "(2 :: nat) ^ 64 \<le> unat c * 2"
  proof (rule ccontr)
    assume "\<not> (2 :: nat) ^ 64 \<le> unat c * 2"
    then have "(unat c * 2) mod 2 ^ 64 = unat c * 2" by simp
    with m ne show False by simp
  qed
  then have "(unat c * 2) mod 2 ^ 64 = (unat c * 2 - 2 ^ 64) mod 2 ^ 64"
    by (rule le_mod_geq)
  also have "\<dots> = unat c * 2 - 2 ^ 64"
    using b by simp
  finally have "unat (c * 2) < unat c"
    using m b ge by simp
  then have "c * 2 < c"
    by (simp add: word_less_nat_alt)
  with assms show False ..
qed

lemma unat_inc: "i < n \<Longrightarrow> unat (i + 1) = unat i + 1" for i n :: "64 word"
  by unat_arith

lemma next_index:
  fixes index c :: "64 word"
  assumes "unat index < unat c"
  shows "unat (if c \<le> index + 1 then 0 else index + 1) = (unat index + 1) mod unat c"
proof -
  from assms have lt: "index < c" by (simp add: word_less_nat_alt)
  then have u: "unat (index + 1) = unat index + 1" by (rule unat_inc)
  show ?thesis
  proof (cases "c \<le> index + 1")
    case True
    then have "unat c \<le> unat index + 1" using u by (simp add: word_le_nat_alt)
    with assms have "unat index + 1 = unat c" by simp
    with True show ?thesis by simp
  next
    case False
    then have "unat index + 1 < unat c" using u by (simp add: word_le_nat_alt)
    with False u show ?thesis by simp
  qed
qed

section \<open>Growth\<close>

lemma ht_expand_loop_result:
  assumes "unat (items m) \<le> length (ht m)" and "unat (items m) \<le> length new"
  shows "\<exists>new'. ht_expand_loop m new i = Inr new' \<and> length new' = length new \<and>
    (\<forall>j < length new. new' ! j = copied m new i j)"
  using assms
proof (induction m new i rule: ht_expand_loop.induct)
  case (1 m new i)
  show ?case
  proof (cases "i < ht_length m")
    case False
    then have "unat (items m) \<le> unat i"
      by (simp add: ht_length_def word_less_nat_alt)
    then have "\<forall>j < length new. new ! j = copied m new i j"
      by (auto simp: copied_def)
    moreover have "ht_expand_loop m new i = Inr new"
      using False by (subst ht_expand_loop.simps) simp
    ultimately show ?thesis by blast
  next
    case True
    then have lt: "unat i < unat (items m)" and u: "unat (i + 1) = unat i + 1"
      by (simp_all add: ht_length_def word_less_nat_alt unat_inc)
    from lt "1.prems" have b1: "\<not> length (ht m) \<le> unat i" and b2: "\<not> length new \<le> unat i"
      by simp_all
    show ?thesis
    proof (cases "key (ht m ! unat i) \<noteq> None")
      case k: True
      have p2: "unat (items m) \<le> length (new[unat i := ht m ! unat i])"
        using "1.prems"(2) by simp
      from "1.IH"(1) [OF True b1 k b2 "1.prems"(1) p2]
      obtain new' where r: "ht_expand_loop m (new[unat i := ht m ! unat i]) (i + 1) = Inr new'"
        and l: "length new' = length new"
        and c: "\<forall>j < length new. new' ! j = copied m (new[unat i := ht m ! unat i]) (i + 1) j"
        by auto
      have "ht_expand_loop m new i = Inr new'"
        using True b1 b2 k r by (subst ht_expand_loop.simps) simp
      moreover have "\<forall>j < length new. new' ! j = copied m new i j"
      proof (intro allI impI)
        fix j assume j: "j < length new"
        with c have e: "new' ! j = copied m (new[unat i := ht m ! unat i]) (i + 1) j" by blast
        show "new' ! j = copied m new i j"
        proof (cases "j = unat i")
          case True
          with e u k lt j show ?thesis by (auto simp: copied_def)
        next
          case False
          then have "unat (i + 1) \<le> j \<longleftrightarrow> unat i \<le> j" using u by auto
          with e False show ?thesis by (auto simp: copied_def)
        qed
      qed
      ultimately show ?thesis using l by blast
    next
      case k: False
      from "1.IH"(2) [OF True b1 k "1.prems"]
      obtain new' where r: "ht_expand_loop m new (i + 1) = Inr new'"
        and l: "length new' = length new"
        and c: "\<forall>j < length new. new' ! j = copied m new (i + 1) j"
        by auto
      have "ht_expand_loop m new i = Inr new'"
        using True b1 k r by (subst ht_expand_loop.simps) simp
      moreover have "\<forall>j < length new. new' ! j = copied m new i j"
      proof (intro allI impI)
        fix j assume "j < length new"
        with c have e: "new' ! j = copied m new (i + 1) j" by blast
        show "new' ! j = copied m new i j"
        proof (cases "j = unat i")
          case True
          with e u k show ?thesis by (auto simp: copied_def)
        next
          case False
          then have "unat (i + 1) \<le> j \<longleftrightarrow> unat i \<le> j" using u by auto
          with e show ?thesis by (auto simp: copied_def)
        qed
      qed
      ultimately show ?thesis using l by blast
    qed
  qed
qed

lemma finite_occupied: "finite (occupied es)"
  by (simp add: occupied_def)

lemma value_zero_entry: "value zero_entry = NULL"
  by (simp add: zero_entry_def)

lemma length_calloc: "length (calloc n) = unat n"
  by (simp add: calloc_def)

lemma nth_calloc: "j < unat n \<Longrightarrow> calloc n ! j = zero_entry"
  by (simp add: calloc_def)

lemma occupied_calloc: "occupied (calloc n) = {}"
  by (auto simp: occupied_def length_calloc nth_calloc value_zero_entry)

lemma set_calloc: "e \<in> set (calloc n) \<Longrightarrow> e = zero_entry"
  by (simp add: calloc_def)

lemma map_inv_ht_new_map: "c \<noteq> 0 \<Longrightarrow> map_inv (ht_new_map c)"
  by (auto simp: map_inv_def ht_new_map_def length_calloc occupied_calloc value_zero_entry
      dest: set_calloc)

lemma ht_expand_overflow: "capacity m * 2 < capacity m \<Longrightarrow> ht_expand m = Inr (- 1, m)"
  by (simp add: ht_expand_def Let_def)

lemma ht_expand_inv:
  assumes inv: "map_inv m" and le: "items m \<le> capacity m div 2"
    and no: "\<not> capacity m * 2 < capacity m"
  shows "\<exists>m1. ht_expand m = Inr (0, m1) \<and> map_inv m1 \<and> items m1 = items m \<and>
    capacity m1 = capacity m * 2 \<and> capacity m \<le> capacity m1 \<and> items m1 < capacity m1 div 2"
proof -
  let ?nc = "capacity m * 2"
  from inv have len: "length (ht m) = unat (capacity m)" and c0: "capacity m \<noteq> 0"
    and card: "card (occupied (ht m)) \<le> unat (items m)"
    and keys: "\<forall>e \<in> set (ht m). value e \<noteq> NULL \<longrightarrow> key e \<noteq> None"
    by (simp_all add: map_inv_def)
  from no have unc: "unat ?nc = 2 * unat (capacity m)"
    by (rule unat_double)
  from c0 have upos: "0 < unat (capacity m)"
    by (simp add: unat_gt_0)
  from le have ule: "unat (items m) \<le> unat (capacity m) div 2"
    by (simp add: word_le_nat_alt unat_div)
  with upos have ult: "unat (items m) < unat (capacity m)"
    by linarith
  have p1: "unat (items m) \<le> length (ht m)"
    using ult len by simp
  have p2: "unat (items m) \<le> length (calloc ?nc)"
    using ult unc by (simp add: length_calloc)
  from ht_expand_loop_result [OF p1 p2, of 0]
  obtain new' where r: "ht_expand_loop m (calloc ?nc) 0 = Inr new'"
    and l: "length new' = unat ?nc"
    and c: "\<forall>j < unat ?nc. new' ! j = copied m (calloc ?nc) 0 j"
    by (auto simp: length_calloc)
  define m1 where "m1 = m\<lparr>capacity := ?nc, ht := new'\<rparr>"
  have e: "ht_expand m = Inr (0, m1)"
    using no r by (simp add: ht_expand_def Let_def m1_def)
  have nth: "new' ! j = ht m ! j \<and> j < unat (items m) \<and> key (ht m ! j) \<noteq> None"
    if "j < unat ?nc" and "value (new' ! j) \<noteq> NULL" for j
  proof -
    from that(1) c have "new' ! j = copied m (calloc ?nc) 0 j" by blast
    with that show ?thesis
      by (auto simp: copied_def nth_calloc value_zero_entry split: if_splits)
  qed
  have "occupied new' \<subseteq> occupied (ht m)"
  proof
    fix j assume "j \<in> occupied new'"
    then have "j < unat ?nc" and "value (new' ! j) \<noteq> NULL"
      by (simp_all add: occupied_def l)
    from nth [OF this] this(2) p1 show "j \<in> occupied (ht m)"
      by (simp add: occupied_def)
  qed
  then have "card (occupied new') \<le> card (occupied (ht m))"
    by (rule card_mono [OF finite_occupied])
  with card have i3: "card (occupied new') \<le> unat (items m)"
    by simp
  have i4: "\<forall>e \<in> set new'. value e \<noteq> NULL \<longrightarrow> key e \<noteq> None"
  proof (intro ballI impI)
    fix e assume "e \<in> set new'" and v: "value e \<noteq> NULL"
    then obtain j where "j < unat ?nc" and "e = new' ! j"
      by (auto simp: in_set_conv_nth l)
    with nth [of j] v show "key e \<noteq> None"
      by simp
  qed
  have "?nc \<noteq> 0"
    using unc upos by (simp add: unat_eq_0 [symmetric] del: unat_eq_0)
  with l i3 i4 have "map_inv m1"
    by (simp add: map_inv_def m1_def)
  moreover have "unat (?nc div 2) = unat (capacity m)"
    using unc by (simp add: unat_div)
  with ult have "items m < ?nc div 2"
    by (simp add: word_less_nat_alt)
  moreover from no have "capacity m \<le> ?nc"
    by simp
  ultimately show ?thesis
    using e by (simp add: m1_def)
qed

section \<open>Termination of the probe loops\<close>

lemma empty_slot_exists:
  assumes "card (occupied es) < length es"
  shows "\<exists>j < length es. value (es ! j) = NULL"
proof (rule ccontr)
  assume "\<not> (\<exists>j < length es. value (es ! j) = NULL)"
  then have "occupied es = {..<length es}"
    by (auto simp: occupied_def)
  with assms show False by simp
qed

lemma probe_distance:
  fixes i j c :: nat
  assumes "i < c" and "j < c"
  shows "\<exists>d < c. (i + d) mod c = j"
proof (intro exI conjI)
  show "(j + c - i) mod c < c"
    using assms by simp
  have "(i + (j + c - i) mod c) mod c = (i + (j + c - i)) mod c"
    by (rule mod_add_right_eq)
  also have "\<dots> = j"
    using assms by simp
  finally show "(i + (j + c - i) mod c) mod c = j" .
qed

lemma strcmp_Some:
  "strcmp (Some a) (Some b) = Inr (strcmp_bytes (bytes a) (bytes b))"
  by (simp add: strcmp_def)

lemma ht_entry_set_fuel_terminates:
  assumes len: "length (ht m) = unat (capacity m)"
    and keys: "\<forall>e \<in> set (ht m). value e \<noteq> NULL \<longrightarrow> key e \<noteq> None"
  shows "unat index < unat (capacity m) \<Longrightarrow> d < n \<Longrightarrow>
    value (ht m ! ((unat index + d) mod unat (capacity m))) = NULL \<Longrightarrow>
    \<exists>y. ht_entry_set_fuel n m index (Some s) v = Some (Inr y)"
proof (induction n arbitrary: index d)
  case 0
  then show ?case by simp
next
  case (Suc n)
  let ?e = "ht m ! unat index"
  from Suc.prems(1) len have inb: "\<not> length (ht m) \<le> unat index"
    by simp
  show ?case
  proof (cases "value ?e = NULL")
    case True
    with inb show ?thesis by simp
  next
    case False
    from inb have "?e \<in> set (ht m)" by simp
    with keys False obtain a where a: "key ?e = Some a" by auto
    show ?thesis
    proof (cases "strcmp_bytes (bytes a) (bytes s) = 0")
      case True
      with inb False a show ?thesis by (simp add: strcmp_Some)
    next
      case ne: False
      let ?next = "if capacity m \<le> index + 1 then 0 else index + 1"
      have nx: "unat ?next = (unat index + 1) mod unat (capacity m)"
        using Suc.prems(1) by (rule next_index)
      have "d \<noteq> 0"
        using False Suc.prems(1,3) by (cases "d = 0") simp_all
      then obtain d' where d: "d = Suc d'" by (cases d) simp_all
      have "(unat ?next + d') mod unat (capacity m) = (unat index + d) mod unat (capacity m)"
        unfolding nx d by (simp add: mod_add_left_eq)
      with Suc.prems(3) have f3: "value (ht m ! ((unat ?next + d') mod unat (capacity m))) = NULL"
        by simp
      have f1: "unat ?next < unat (capacity m)"
        unfolding nx using Suc.prems(1) by simp
      have f2: "d' < n"
        using Suc.prems(2) d by simp
      from f1 f2 f3 have "\<exists>y. ht_entry_set_fuel n m ?next (Some s) v = Some (Inr y)"
        by (rule Suc.IH)
      with inb False a ne show ?thesis by (simp add: strcmp_Some)
    qed
  qed
qed


section \<open>The invariant along a sequence of calls\<close>

lemma occupied_update: "occupied (es[i := e]) \<subseteq> insert i (occupied es)"
  by (auto simp: occupied_def nth_list_update split: if_splits)

lemma card_occupied_update: "card (occupied (es[i := e])) \<le> Suc (card (occupied es))"
proof -
  have "card (occupied (es[i := e])) \<le> card (insert i (occupied es))"
    by (rule card_mono) (simp_all add: finite_occupied occupied_update)
  also have "\<dots> \<le> Suc (card (occupied es))"
    by (simp add: card_insert_if finite_occupied)
  finally show ?thesis .
qed

lemma card_occupied_overwrite:
  assumes "i < length es" and "value (es ! i) \<noteq> NULL"
  shows "card (occupied (es[i := e])) \<le> card (occupied es)"
proof -
  from assms have "i \<in> occupied es"
    by (simp add: occupied_def)
  then have "insert i (occupied es) = occupied es"
    by auto
  with occupied_update [of es i e] have "occupied (es[i := e]) \<subseteq> occupied es"
    by simp
  then show ?thesis
    by (rule card_mono [OF finite_occupied])
qed

lemma strcmp_Inr_key: "strcmp a b = Inr c \<Longrightarrow> a \<noteq> None"
  by (cases a) (simp_all add: strcmp_def)

lemma entry_set_post_inv:
  assumes inv: "map_inv m" and lt: "items m < capacity m div 2"
    and post: "entry_set_post m (Some s) v m' r i"
  shows "map_inv m' \<and> items m' \<le> capacity m' div 2 \<and> capacity m' = capacity m \<and> r \<noteq> None"
proof -
  from inv have len: "length (ht m) = unat (capacity m)" and c0: "capacity m \<noteq> 0"
    and card: "card (occupied (ht m)) \<le> unat (items m)"
    and keys: "\<forall>e \<in> set (ht m). value e \<noteq> NULL \<longrightarrow> key e \<noteq> None"
    by (simp_all add: map_inv_def)
  from post have i: "i < length (ht m)"
    by (simp add: entry_set_post_def)
  show ?thesis
  proof (cases "value (ht m ! i) = NULL")
    case True
    let ?es = "(ht m)[i := \<lparr>key = Some s, value = v\<rparr>]"
    from True post have m': "m' = m\<lparr>ht := ?es, items := items m + 1\<rparr>" and r: "r = Some s"
      by (simp_all add: entry_set_post_def)
    from lt have u: "unat (items m + 1) = unat (items m) + 1"
      by (rule unat_inc)
    have "card (occupied ?es) \<le> unat (items m + 1)"
      using card_occupied_update [of "ht m" i "\<lparr>key = Some s, value = v\<rparr>"] card u by simp
    moreover have "\<forall>e \<in> set ?es. value e \<noteq> NULL \<longrightarrow> key e \<noteq> None"
      using keys set_update_subset_insert [of "ht m" i "\<lparr>key = Some s, value = v\<rparr>"] by auto
    ultimately have "map_inv m'"
      using len c0 by (simp add: map_inv_def m')
    moreover from lt have "items m + 1 \<le> capacity m div 2"
      by (rule inc_le)
    ultimately show ?thesis
      by (simp add: m' r)
  next
    case False
    let ?es = "(ht m)[i := (ht m ! i)\<lparr>value := v\<rparr>]"
    from False post have m': "m' = m\<lparr>ht := ?es\<rparr>" and r: "r = key (ht m ! i)"
      and eq: "strcmp (key (ht m ! i)) (Some s) = Inr 0"
      by (simp_all add: entry_set_post_def)
    from eq have k: "key (ht m ! i) \<noteq> None"
      by (rule strcmp_Inr_key)
    have "card (occupied ?es) \<le> unat (items m)"
      using card_occupied_overwrite [OF i False, of "(ht m ! i)\<lparr>value := v\<rparr>"] card by simp
    moreover have "\<forall>e \<in> set ?es. value e \<noteq> NULL \<longrightarrow> key e \<noteq> None"
      using keys k set_update_subset_insert [of "ht m" i "(ht m ! i)\<lparr>value := v\<rparr>"] by auto
    ultimately have "map_inv m'"
      using len c0 by (simp add: map_inv_def m')
    with lt k show ?thesis
      by (simp add: m' r)
  qed
qed

lemma probe_start:
  assumes inv: "map_inv m" and le: "items m \<le> capacity m div 2"
  shows "\<exists>d < unat (capacity m).
    value (ht m ! ((unat (h mod capacity m) + d) mod unat (capacity m))) = NULL"
    and "unat (h mod capacity m) < unat (capacity m)"
proof -
  from inv have len: "length (ht m) = unat (capacity m)" and c0: "capacity m \<noteq> 0"
    and card: "card (occupied (ht m)) \<le> unat (items m)"
    by (simp_all add: map_inv_def)
  from c0 have upos: "0 < unat (capacity m)"
    by (simp add: unat_gt_0)
  from le have "unat (items m) \<le> unat (capacity m) div 2"
    by (simp add: word_le_nat_alt unat_div)
  with upos card len have "card (occupied (ht m)) < length (ht m)"
    by linarith
  then obtain j where j: "j < unat (capacity m)" and e: "value (ht m ! j) = NULL"
    using empty_slot_exists len by metis
  from c0 have "h mod capacity m < capacity m"
    by (simp add: word_mod_less_divisor word_greater_zero_iff)
  then show s: "unat (h mod capacity m) < unat (capacity m)"
    by (simp add: word_less_nat_alt)
  from probe_distance [OF s j] e
  show "\<exists>d < unat (capacity m).
    value (ht m ! ((unat (h mod capacity m) + d) mod unat (capacity m))) = NULL"
    by auto
qed

lemma ht__hash_Some: "\<exists>h. ht__hash (Some s) = Inr h"
  by (simp add: ht__hash_def)

lemma ht_set_at_hash_step:
  assumes inv: "map_inv m" and lt: "items m < capacity m div 2"
  shows "\<exists>m' r. ht_set_at_hash_bounded m (Some s) v = Some (Inr (m', r)) \<and>
    ht_set_at_hash m (Some s) v = Some (Inr (m', r)) \<and>
    map_inv m' \<and> items m' \<le> capacity m' div 2 \<and> capacity m' = capacity m \<and> r \<noteq> None"
proof -
  from inv have len: "length (ht m) = unat (capacity m)" and c0: "capacity m \<noteq> 0"
    and keys: "\<forall>e \<in> set (ht m). value e \<noteq> NULL \<longrightarrow> key e \<noteq> None"
    by (simp_all add: map_inv_def)
  obtain h where h: "ht__hash (Some s) = Inr h"
    using ht__hash_Some by blast
  from lt have le: "items m \<le> capacity m div 2"
    by simp
  from probe_start [OF inv le, of h]
  obtain d where d: "d < unat (capacity m)"
    and e: "value (ht m ! ((unat (h mod capacity m) + d) mod unat (capacity m))) = NULL"
    and st: "unat (h mod capacity m) < unat (capacity m)"
    by blast
  from ht_entry_set_fuel_terminates [OF len keys st d e, of s v]
  obtain m' r where
    f: "ht_entry_set_fuel (unat (capacity m)) m (h mod capacity m) (Some s) v = Some (Inr (m', r))"
    by auto
  then have g: "ht_entry_set m (h mod capacity m) (Some s) v = Some (Inr (m', r))"
    by (rule ht_entry_set_fuel_sound)
  then obtain i where "entry_set_post m (Some s) v m' r i"
    using ht_entry_set_post by blast
  from entry_set_post_inv [OF inv lt this]
  have "map_inv m'" and "items m' \<le> capacity m' div 2" and "capacity m' = capacity m"
    and "r \<noteq> None"
    by blast+
  moreover have "ht_set_at_hash_bounded m (Some s) v = Some (Inr (m', r))"
    using f h c0 by (simp add: ht_set_at_hash_bounded_def)
  moreover have "ht_set_at_hash m (Some s) v = Some (Inr (m', r))"
    using g h c0 by (simp add: ht_set_at_hash_def)
  ultimately show ?thesis
    by blast
qed

lemma ht_set_step:
  assumes inv: "map_inv m" and le: "items m \<le> capacity m div 2"
  shows "\<exists>m' r. ht_set_bounded m k v = Some (Inr (m', r)) \<and>
    ht_set m k v = Some (Inr (m', r)) \<and>
    map_inv m' \<and> items m' \<le> capacity m' div 2 \<and> capacity m \<le> capacity m'"
proof (cases k)
  case None
  with inv le show ?thesis
    by (simp add: ht_set_bounded_def ht_set_def)
next
  case (Some s)
  show ?thesis
  proof (cases "capacity m div 2 \<le> ht_length m")
    case False
    then have "items m < capacity m div 2"
      by (simp add: ht_length_def)
    from ht_set_at_hash_step [OF inv this, of s v] False Some show ?thesis
      by (auto simp: ht_set_bounded_def ht_set_def)
  next
    case grow: True
    show ?thesis
    proof (cases "capacity m * 2 < capacity m")
      case True
      then have "ht_expand m = Inr (- 1, m)"
        by (rule ht_expand_overflow)
      with grow Some inv le show ?thesis
        by (simp add: ht_set_bounded_def ht_set_def)
    next
      case False
      from ht_expand_inv [OF inv le False]
      obtain m1 where e: "ht_expand m = Inr (0, m1)" and inv1: "map_inv m1"
        and c: "capacity m \<le> capacity m1" and lt: "items m1 < capacity m1 div 2"
        by blast
      from ht_set_at_hash_step [OF inv1 lt, of s v] e grow Some c show ?thesis
        by (auto simp: ht_set_bounded_def ht_set_def)
    qed
  qed
qed


lemma ht_set_all_inv:
  assumes "map_inv m" and "items m \<le> capacity m div 2"
  shows "\<exists>m'. ht_set_all m kvs = Some (Inr m') \<and> map_inv m' \<and>
    items m' \<le> capacity m' div 2 \<and> capacity m \<le> capacity m'"
  using assms
proof (induction kvs arbitrary: m)
  case Nil
  then show ?case by simp
next
  case (Cons kv kvs)
  obtain k v where kv: "kv = (k, v)" by (cases kv)
  from ht_set_step [OF Cons.prems, of k v]
  obtain m1 r where s: "ht_set m k v = Some (Inr (m1, r))" and inv1: "map_inv m1"
    and le1: "items m1 \<le> capacity m1 div 2" and c1: "capacity m \<le> capacity m1"
    by blast
  from Cons.IH [OF inv1 le1]
  obtain m' where "ht_set_all m1 kvs = Some (Inr m')" and "map_inv m'"
    and "items m' \<le> capacity m' div 2" and "capacity m1 \<le> capacity m'"
    by blast
  with s c1 show ?case
    by (auto simp: kv)
qed

section \<open>Calls on particular maps\<close>

lemma ht_set_capacity_zero:
  assumes "capacity m = 0" and "items m = 0"
  shows "ht_set m (Some s) v = Some (Inl DivByZero)"
proof -
  have l: "ht_expand_loop m (calloc 0) 0 = Inr (calloc 0)"
    using assms by (subst ht_expand_loop.simps) (simp add: ht_length_def)
  have "ht_expand m = Inr (0, m\<lparr>capacity := 0, ht := calloc 0\<rparr>)"
    using assms l by (simp add: ht_expand_def Let_def)
  then show ?thesis
    using assms by (simp add: ht_set_def ht_length_def ht_set_at_hash_def ht__hash_def)
qed


lemma ht_set_all_capacity_zero:
  assumes "capacity m = 0" and "items m = 0"
  shows "ht_set_all m kvs = Some (Inr m') \<Longrightarrow> m' = m"
proof (induction kvs)
  case Nil
  then show ?case by simp
next
  case (Cons kv kvs)
  obtain k v where kv: "kv = (k, v)" by (cases kv)
  show ?case
  proof (cases k)
    case None
    with Cons kv show ?thesis by (simp add: ht_set_def)
  next
    case (Some s)
    with Cons.prems kv ht_set_capacity_zero [OF assms, of s v] show ?thesis by simp
  qed
qed

lemma reachable_inv:
  assumes "ht_set_all (ht_new_map c) kvs = Some (Inr m)"
  shows "items m \<le> capacity m div 2 \<and> (c \<noteq> 0 \<longrightarrow> map_inv m) \<and> (c = 0 \<longrightarrow> m = ht_new_map 0)"
proof (cases "c = 0")
  case True
  have "capacity (ht_new_map 0) = 0" and "items (ht_new_map 0) = 0"
    by (simp_all add: ht_new_map_def)
  from ht_set_all_capacity_zero [OF this] assms True have "m = ht_new_map 0"
    by simp
  then show ?thesis
    using True by (simp add: ht_new_map_def)
next
  case False
  then have "map_inv (ht_new_map c)"
    by (rule map_inv_ht_new_map)
  moreover have "items (ht_new_map c) \<le> capacity (ht_new_map c) div 2"
    by (simp add: ht_new_map_def)
  ultimately obtain m' where "ht_set_all (ht_new_map c) kvs = Some (Inr m')" and "map_inv m'"
    and "items m' \<le> capacity m' div 2"
    using ht_set_all_inv by blast
  with assms False show ?thesis by simp
qed

lemma ht_expand_negative:
  "ht_expand m = Inr (rc, m') \<Longrightarrow> rc < 0 \<Longrightarrow> m' = m \<and> capacity m * 2 < capacity m"
  by (auto simp: ht_expand_def Let_def split: if_splits sum.splits)

lemma entry_set_post_slot:
  assumes "entry_set_post m k v m' r i"
  shows "key (ht m' ! i) = r \<and> value (ht m' ! i) = v \<and> (k \<noteq> None \<longrightarrow> r \<noteq> None)"
proof (cases "value (ht m ! i) = NULL")
  case True
  with assms show ?thesis
    by (simp add: entry_set_post_def)
next
  case False
  with assms have "strcmp (key (ht m ! i)) k = Inr 0"
    by (simp add: entry_set_post_def)
  then have "key (ht m ! i) \<noteq> None"
    by (rule strcmp_Inr_key)
  with False assms show ?thesis
    by (simp add: entry_set_post_def)
qed

lemma ht_set_at_hash_post:
  assumes "ht_set_at_hash m k v = Some (Inr (m', r))"
  shows "\<exists>i. entry_set_post m k v m' r i"
proof -
  from assms obtain h where "ht_entry_set m (h mod capacity m) k v = Some (Inr (m', r))"
    by (auto simp: ht_set_at_hash_def split: sum.splits if_splits)
  then show ?thesis
    by (rule ht_entry_set_post)
qed

lemma ht_expand_nonnegative:
  "ht_expand m = Inr (rc, m1) \<Longrightarrow> \<not> rc < 0 \<Longrightarrow> rc = 0 \<and> \<not> capacity m * 2 < capacity m"
  by (auto simp: ht_expand_def Let_def split: if_splits sum.splits)

section \<open>Lookup after insertion\<close>

text \<open>
  C1. The claim: after any sequence of \<^verbatim>\<open>set\<close> calls, \<^verbatim>\<open>get\<close> returns for every key the value
  set last, also across a resize. The code does not: from a map of capacity 2, setting
  "a", "b" and "c" to 1, 2 and 3 grows the map twice, to capacity 8. \<^verbatim>\<open>ht_expand\<close> copies "a" and
  "b" to the slots 0 and 1 they had, while their hashes modulo 8 are 4 and 5, so the probes
  for them start at an empty slot and \<^verbatim>\<open>ht_get\<close> returns null for both.
\<close>

theorem set_then_get_after_resize:
  "(case ht_set_all (ht_new_map 2) [(Some key_a, 1), (Some key_b, 2), (Some key_c, 3)] of
      Some (Inr m) \<Rightarrow>
        capacity m = 8 \<and> ht_length m = 3 \<and>
        ht_get m (Some key_a) = Some (Inr NULL) \<and>
        ht_get m (Some key_b) = Some (Inr NULL) \<and>
        ht_get m (Some key_c) = Some (Inr 3)
    | _ \<Rightarrow> False)"
  by code_simp

section \<open>The scenario of the test map_expand\<close>

text \<open>
  C2. After \<^verbatim>\<open>create(4); set("foo", 2); set("bar", 1); set("bar", 3)\<close> the claim expects
  length 2, 3 for "bar", 2 for "foo" and capacity 8. The code gives capacity 8 and 3 for
  "bar", but length 3 and no entry for "foo": the third call grows the map, \<^verbatim>\<open>ht_expand\<close>
  copies the slots of index 0 and 1 only (its loop runs to the number of items, not to the
  capacity), both empty, and so drops "foo" from slot 3 and "bar" from slot 2; "bar" is then
  inserted anew and counted a second time.
\<close>

theorem map_expand_scenario:
  "(case ht_set_all (ht_new_map 4) [(Some foo, 2), (Some bar, 1), (Some bar, 3)] of
      Some (Inr m) \<Rightarrow>
        ht_length m = 3 \<and> capacity m = 8 \<and>
        ht_get m (Some bar) = Some (Inr 3) \<and>
        ht_get m (Some foo) = Some (Inr NULL)
    | _ \<Rightarrow> False)"
  by code_simp

section \<open>Arguments that are null\<close>

text \<open>
  C3, as stated, fails for the value: \<^verbatim>\<open>ht_set\<close> has no test of the value. With the key "foo"
  and a null value on a new map of capacity 4 it returns the key, not null, writes the key
  into slot 3 and counts one item.
\<close>

theorem ht_set_null_value_counterexample:
  "ht_set (ht_new_map 4) (Some foo) NULL =
     Some (Inr (\<lparr>ht = [zero_entry, zero_entry, zero_entry, \<lparr>key = Some foo, value = NULL\<rparr>],
                  capacity = 4, items = 1\<rparr>, Some foo))"
  by code_simp

text \<open>
  C3, amended. \<^verbatim>\<open>ht_set\<close> fails, returning null, when the key is null, and then the map is
  left as it was: slots, capacity and item count.
\<close>

theorem ht_set_null_key:
  "ht_set m None v = Some (Inr (m, None))"
  by (simp add: ht_set_def)

section \<open>Keys and slots\<close>

text \<open>
  C4. The claim: in every map reached from \<^verbatim>\<open>create\<close> by \<^verbatim>\<open>set\<close> calls no key is in more than
  one slot. The code breaks it: after the three calls of C1, "a" is in slot 0 of the map of
  capacity 8, where no probe for "a" passes; setting "a" again, to 4, probes from slot 4,
  finds it empty and inserts "a" a second time. The key then occupies slots 0 and 4, and
  the three keys count as four items.
\<close>

theorem key_in_two_slots:
  "(case ht_set_all (ht_new_map 2)
           [(Some key_a, 1), (Some key_b, 2), (Some key_c, 3), (Some key_a, 4)] of
      Some (Inr m) \<Rightarrow> key_slots m (Some key_a) = [0, 4] \<and> ht_length m = 4
    | _ \<Rightarrow> False)"
  by code_simp

section \<open>Load factor\<close>

text \<open>
  C5. After every \<^verbatim>\<open>ht_set\<close> call that returns, on a map reached from \<^verbatim>\<open>ht_new_map\<close> by
  \<^verbatim>\<open>ht_set\<close> calls, the number of items is at most half the capacity (integer division).
\<close>

theorem load_factor_after_set:
  assumes "ht_set_all (ht_new_map c) kvs = Some (Inr m)"
    and "ht_set m k v = Some (Inr (m', r))"
  shows "items m' \<le> capacity m' div 2"
proof (cases "c = 0")
  case True
  with reachable_inv [OF assms(1)] have m: "m = ht_new_map 0"
    by simp
  have z: "capacity (ht_new_map 0) = 0" "items (ht_new_map 0) = 0"
    by (simp_all add: ht_new_map_def)
  show ?thesis
  proof (cases k)
    case None
    with assms(2) m z show ?thesis by (simp add: ht_set_def)
  next
    case (Some s)
    with assms(2) m ht_set_capacity_zero [OF z, of s v] show ?thesis by simp
  qed
next
  case False
  with reachable_inv [OF assms(1)] have "map_inv m" and "items m \<le> capacity m div 2"
    by simp_all
  from ht_set_step [OF this, of k v] assms(2) show ?thesis
    by auto
qed

text \<open>
  The witness of C5: on the map of capacity 4 that holds "foo" and "bar", setting "a" grows
  the map to capacity 8 and leaves 3 items.
\<close>

theorem load_factor_after_set_witness:
  "ht_set_all (ht_new_map 4) [(Some foo, 2), (Some bar, 1)] =
     Some (Inr \<lparr>ht = [zero_entry, zero_entry, \<lparr>key = Some bar, value = 1\<rparr>,
                      \<lparr>key = Some foo, value = 2\<rparr>], capacity = 4, items = 2\<rparr>) \<and>
   ht_set \<lparr>ht = [zero_entry, zero_entry, \<lparr>key = Some bar, value = 1\<rparr>,
                \<lparr>key = Some foo, value = 2\<rparr>], capacity = 4, items = 2\<rparr> (Some key_a) 5 =
     Some (Inr (\<lparr>ht = [zero_entry, zero_entry, zero_entry, zero_entry,
                       \<lparr>key = Some key_a, value = 5\<rparr>, zero_entry, zero_entry, zero_entry],
                  capacity = 8, items = 3\<rparr>, Some key_a)) \<and>
   (3 :: size_t) \<le> 8 div 2"
proof -
  have a: "ht_set_all (ht_new_map 4) [(Some foo, 2), (Some bar, 1)] =
     Some (Inr \<lparr>ht = [zero_entry, zero_entry, \<lparr>key = Some bar, value = 1\<rparr>,
                      \<lparr>key = Some foo, value = 2\<rparr>], capacity = 4, items = 2\<rparr>)"
    by code_simp
  have b: "ht_set \<lparr>ht = [zero_entry, zero_entry, \<lparr>key = Some bar, value = 1\<rparr>,
                \<lparr>key = Some foo, value = 2\<rparr>], capacity = 4, items = 2\<rparr> (Some key_a) 5 =
     Some (Inr (\<lparr>ht = [zero_entry, zero_entry, zero_entry, zero_entry,
                       \<lparr>key = Some key_a, value = 5\<rparr>, zero_entry, zero_entry, zero_entry],
                  capacity = 8, items = 3\<rparr>, Some key_a))"
    by code_simp
  from load_factor_after_set [OF a b] a b show ?thesis
    by simp
qed

section \<open>Failure of the resize\<close>

lemma map_of_fields: "\<lparr>ht = ht m, capacity = capacity m, items = items m\<rparr> = m"
  by simp

text \<open>
  When the allocations succeed, the operations on the map in memory are the operations of
  the first subsection.
\<close>

lemma ht_expand_loop_mem_allocated:
  "ht_expand_loop_mem (mem_of m) (Some new) i =
     (case ht_expand_loop m new i of Inl f \<Rightarrow> Inl f | Inr es \<Rightarrow> Inr (Some es))"
proof (induction m new i rule: ht_expand_loop.induct)
  case (1 m new i)
  show ?case
  proof (cases "i < ht_length m")
    case False
    then show ?thesis
      by (subst ht_expand_loop_mem.simps, subst ht_expand_loop.simps)
        (simp add: mem_of_def ht_length_def)
  next
    case True
    show ?thesis
    proof (cases "length (ht m) \<le> unat i")
      case oob: True
      with True show ?thesis
        by (subst ht_expand_loop_mem.simps, subst ht_expand_loop.simps)
          (simp add: mem_of_def ht_length_def)
    next
      case inb: False
      show ?thesis
      proof (cases "key (ht m ! unat i) \<noteq> None")
        case k: True
        show ?thesis
        proof (cases "length new \<le> unat i")
          case True
          with \<open>i < ht_length m\<close> inb k show ?thesis
            by (subst ht_expand_loop_mem.simps, subst ht_expand_loop.simps)
              (simp add: mem_of_def ht_length_def)
        next
          case False
          from "1.IH"(1) [OF \<open>i < ht_length m\<close> inb k False]
          have "ht_expand_loop_mem (mem_of m) (Some (new[unat i := ht m ! unat i])) (i + 1) =
            (case ht_expand_loop m (new[unat i := ht m ! unat i]) (i + 1) of
               Inl f \<Rightarrow> Inl f | Inr es \<Rightarrow> Inr (Some es))" .
          moreover have "ht_expand_loop_mem (mem_of m) (Some new) i =
            ht_expand_loop_mem (mem_of m) (Some (new[unat i := ht m ! unat i])) (i + 1)"
            using \<open>i < ht_length m\<close> inb k False
            by (subst ht_expand_loop_mem.simps) (simp add: mem_of_def ht_length_def)
          moreover have "ht_expand_loop m new i =
            ht_expand_loop m (new[unat i := ht m ! unat i]) (i + 1)"
            using \<open>i < ht_length m\<close> inb k False
            by (subst ht_expand_loop.simps) simp
          ultimately show ?thesis
            by simp
        qed
      next
        case k: False
        from "1.IH"(2) [OF \<open>i < ht_length m\<close> inb k]
        have "ht_expand_loop_mem (mem_of m) (Some new) (i + 1) =
          (case ht_expand_loop m new (i + 1) of Inl f \<Rightarrow> Inl f | Inr es \<Rightarrow> Inr (Some es))" .
        moreover have "ht_expand_loop_mem (mem_of m) (Some new) i =
          ht_expand_loop_mem (mem_of m) (Some new) (i + 1)"
          using \<open>i < ht_length m\<close> inb k
          by (subst ht_expand_loop_mem.simps) (simp add: mem_of_def ht_length_def)
        moreover have "ht_expand_loop m new i = ht_expand_loop m new (i + 1)"
          using \<open>i < ht_length m\<close> inb k
          by (subst ht_expand_loop.simps) simp
        ultimately show ?thesis
          by simp
      qed
    qed
  qed
qed

lemma ht_expand_mem_allocated:
  assumes "avail (capacity m * 2)"
  shows "ht_expand_mem avail (mem_of m) =
     (case ht_expand m of Inl f \<Rightarrow> Inl f | Inr (rc, m') \<Rightarrow> Inr (rc, mem_of m'))"
proof (cases "capacity m * 2 < capacity m")
  case True
  then show ?thesis
    by (simp add: ht_expand_mem_def ht_expand_def Let_def mem_of_def)
next
  case False
  have c: "capacity_mem (mem_of m) = capacity m"
    by (simp add: mem_of_def)
  show ?thesis
    using False assms
    by (simp add: ht_expand_mem_def ht_expand_def Let_def c calloc_mem_def
        ht_expand_loop_mem_allocated split: sum.splits)
      (simp add: mem_of_def)
qed

lemma ht_entry_set_mem_allocated:
  "ht_entry_set_mem (mem_of m) index k v =
     (case ht_entry_set m index k v of
        None \<Rightarrow> None
      | Some (Inl f) \<Rightarrow> Some (Inl f)
      | Some (Inr (m', r)) \<Rightarrow> Some (Inr (mem_of m', r)))"
  by (simp add: ht_entry_set_mem_def mem_of_def map_of_fields)

lemma ht_set_at_hash_mem_allocated:
  "ht_set_at_hash_mem (mem_of m) k v =
     (case ht_set_at_hash m k v of
        None \<Rightarrow> None
      | Some (Inl f) \<Rightarrow> Some (Inl f)
      | Some (Inr (m', r)) \<Rightarrow> Some (Inr (mem_of m', r)))"
proof -
  have c: "capacity_mem (mem_of m) = capacity m"
    by (simp add: mem_of_def)
  show ?thesis
    by (simp add: ht_set_at_hash_mem_def ht_set_at_hash_def c ht_entry_set_mem_allocated
        split: sum.splits)
qed

lemma ht_set_mem_allocated:
  assumes "avail (capacity m * 2)"
  shows "ht_set_mem avail (mem_of m) k v =
     (case ht_set m k v of
        None \<Rightarrow> None
      | Some (Inl f) \<Rightarrow> Some (Inl f)
      | Some (Inr (m', r)) \<Rightarrow> Some (Inr (mem_of m', r)))"
proof -
  have c: "capacity_mem (mem_of m) = capacity m" "items_mem (mem_of m) = items m"
    by (simp_all add: mem_of_def)
  have e: "ht_expand_mem avail (mem_of m) =
     (case ht_expand m of Inl f \<Rightarrow> Inl f | Inr (rc, m') \<Rightarrow> Inr (rc, mem_of m'))"
    using assms by (rule ht_expand_mem_allocated)
  show ?thesis
    by (simp add: ht_set_mem_def ht_set_def c ht_length_def e
        ht_set_at_hash_mem_allocated split: sum.splits prod.splits)
qed

lemma ht_get_mem_allocated: "ht_get_mem (mem_of m) k = ht_get m k"
  by (simp add: ht_get_mem_def ht_get_def mem_of_def map_of_fields split: sum.splits)

lemma ht_new_map_mem_allocated:
  "avail c \<Longrightarrow> ht_new_map_mem True avail c = Inr (mem_of (ht_new_map c))"
  by (simp add: ht_new_map_mem_def calloc_mem_def mem_of_def ht_new_map_def)

text \<open>
  The one failure that \<^verbatim>\<open>ht_expand\<close> tests for is the wrap-around of the doubled capacity:
  then \<^verbatim>\<open>ht_set\<close> returns null and the map is as it was. When instead \<^verbatim>\<open>calloc\<close> fails in a
  growth that is due, no call of \<^verbatim>\<open>ht_set\<close> with a key returns: it ends in a fault.
\<close>

lemma ht_expand_loop_mem_null:
  "ht_expand_loop_mem mm None i = Inr new_entries \<Longrightarrow> new_entries = None"
proof (induction mm "None :: ht_entry list option" i rule: ht_expand_loop_mem.induct)
  case (1 mm i)
  from "1.prems" show ?case
    by (subst (asm) ht_expand_loop_mem.simps)
      (auto split: if_splits option.splits intro: "1.hyps")
qed

lemma ht_set_mem_overflow:
  assumes "capacity_mem mm * 2 < capacity_mem mm" and "capacity_mem mm div 2 \<le> items_mem mm"
  shows "ht_set_mem avail mm k v = Some (Inr (mm, None))"
  using assms by (simp add: ht_set_mem_def ht_expand_mem_def Let_def)

lemma ht_set_mem_allocation_failure:
  assumes k: "k \<noteq> None" and g: "capacity_mem mm div 2 \<le> items_mem mm"
    and no: "\<not> capacity_mem mm * 2 < capacity_mem mm"
    and fail: "\<not> avail (capacity_mem mm * 2)"
  shows "\<exists>f. ht_set_mem avail mm k v = Some (Inl f)"
proof (cases "ht_expand_loop_mem mm None 0")
  case (Inl f)
  with assms show ?thesis
    by (simp add: ht_set_mem_def ht_expand_mem_def Let_def calloc_mem_def)
next
  case (Inr new_entries)
  then have n: "new_entries = None"
    by (rule ht_expand_loop_mem_null)
  obtain h where h: "ht__hash k = Inr h"
    using k ht__hash_Some by (cases k) auto
  from Inr n assms h show ?thesis
    by (simp add: ht_set_mem_def ht_expand_mem_def Let_def calloc_mem_def
        ht_set_at_hash_mem_def ht_entry_set_mem_def)
qed

text \<open>
  C6. The claim: when the resize fails, \<^verbatim>\<open>set\<close> reports an error and the map is left as it
  was, usable at its capacity. The code does so for the wrap-around of the doubled
  capacity only. It does not test the result of \<^verbatim>\<open>calloc\<close> in \<^verbatim>\<open>ht_expand\<close>. On a new map
  of capacity 1 the first \<^verbatim>\<open>ht_set\<close> has to grow the map; when \<^verbatim>\<open>calloc\<close> returns null,
  \<^verbatim>\<open>ht_expand\<close> has nothing to copy, stores the null array with capacity 2 and returns 0, and
  \<^verbatim>\<open>ht_set\<close> reads through the null array. On the map of capacity 2 that holds "a" the next
  \<^verbatim>\<open>ht_set\<close> has to grow the map too, and \<^verbatim>\<open>ht_expand\<close> writes the entry of "a" through the
  null pointer. Neither call returns null.
\<close>

theorem resize_allocation_failure:
  "ht_new_map_mem True (\<lambda>n. True) 1 = Inr (mem_of (ht_new_map 1)) \<and>
   ht_expand_mem (\<lambda>n. False) (mem_of (ht_new_map 1)) =
     Inr (0, \<lparr>ht_mem = None, capacity_mem = 2, items_mem = 0\<rparr>) \<and>
   ht_set_mem (\<lambda>n. False) (mem_of (ht_new_map 1)) (Some foo) 2 = Some (Inl NullDeref) \<and>
   ht_set_mem (\<lambda>n. True) (mem_of (ht_new_map 2)) (Some key_a) 1 =
     Some (Inr (mem_of one_a, Some key_a)) \<and>
   ht_expand_mem (\<lambda>n. False) (mem_of one_a) = Inl NullDeref \<and>
   ht_set_mem (\<lambda>n. False) (mem_of one_a) (Some key_b) 2 = Some (Inl NullDeref)"
  by code_simp

section \<open>Termination of set and get\<close>



section \<open>The pointer returned by set\<close>

text \<open>
  C9. When \<^verbatim>\<open>ht_set\<close> returns, it returns null exactly when it fails (the key is null, or
  the map has to grow and doubling the capacity wraps around), and then the map is as it
  was. Otherwise it has written one slot of the map, grown first if that was due, and
  returns the key pointer that slot now holds: the key given when the slot was empty, the
  key that was stored there when the slot held an equal key, of which only the value is
  replaced.
\<close>

theorem ht_set_returns_stored_key:
  assumes "ht_set m k v = Some (Inr (m', r))"
  shows "(r = None \<longleftrightarrow>
            k = None \<or> (capacity m div 2 \<le> ht_length m \<and> capacity m * 2 < capacity m)) \<and>
         (r = None \<longrightarrow> m' = m) \<and>
         (r \<noteq> None \<longrightarrow>
            (\<exists>m1 i. (if capacity m div 2 \<le> ht_length m then ht_expand m = Inr (0, m1) else m1 = m) \<and>
               entry_set_post m1 k v m' r i \<and> key (ht m' ! i) = r \<and> value (ht m' ! i) = v))"
proof (cases k)
  case None
  with assms show ?thesis
    by (simp add: ht_set_def)
next
  case (Some s)
  have ins: ?thesis
    if g: "if capacity m div 2 \<le> ht_length m then ht_expand m = Inr (0, m1) else m1 = m"
      and o: "\<not> (capacity m div 2 \<le> ht_length m \<and> capacity m * 2 < capacity m)"
      and h: "ht_set_at_hash m1 k v = Some (Inr (m', r))" for m1
  proof -
    from h obtain i where p: "entry_set_post m1 k v m' r i"
      using ht_set_at_hash_post by blast
    from entry_set_post_slot [OF p] Some
    have "key (ht m' ! i) = r" and "value (ht m' ! i) = v" and "r \<noteq> None"
      by simp_all
    with g o p Some show ?thesis
      by blast
  qed
  show ?thesis
  proof (cases "capacity m div 2 \<le> ht_length m")
    case False
    with assms Some have "ht_set_at_hash m k v = Some (Inr (m', r))"
      by (simp add: ht_set_def)
    with False show ?thesis
      by (intro ins [of m]) simp_all
  next
    case grow: True
    with assms Some obtain rc m1 where e: "ht_expand m = Inr (rc, m1)"
      by (auto simp: ht_set_def split: sum.splits)
    show ?thesis
    proof (cases "rc < 0")
      case True
      from ht_expand_negative [OF e True] have "m1 = m" and "capacity m * 2 < capacity m"
        by simp_all
      with assms Some grow e True show ?thesis
        by (simp add: ht_set_def)
    next
      case False
      from ht_expand_nonnegative [OF e False] have rc: "rc = 0"
        and no: "\<not> capacity m * 2 < capacity m"
        by simp_all
      from assms Some grow e rc have "ht_set_at_hash m1 k v = Some (Inr (m', r))"
        by (simp add: ht_set_def)
      with grow e rc no show ?thesis
        by (intro ins [of m1]) simp_all
    qed
  qed
qed

text \<open>
  The witness of C9: the map holds "foo"; setting it through another pointer to an equal
  string returns the pointer stored first.
\<close>

theorem ht_set_returns_stored_key_witness:
  "ht_set one_foo (Some foo_copy) 7 = Some (Inr (one_foo_updated, Some foo)) \<and>
   foo \<noteq> foo_copy \<and>
   (\<exists>m1 i. (if capacity one_foo div 2 \<le> ht_length one_foo
             then ht_expand one_foo = Inr (0, m1) else m1 = one_foo) \<and>
      entry_set_post m1 (Some foo_copy) 7 one_foo_updated (Some foo) i \<and>
      key (ht one_foo_updated ! i) = Some foo \<and> value (ht one_foo_updated ! i) = 7)"
proof -
  have a: "ht_set one_foo (Some foo_copy) 7 = Some (Inr (one_foo_updated, Some foo))"
    by code_simp
  have b: "foo \<noteq> foo_copy"
    by code_simp
  from ht_set_returns_stored_key [OF a] a b show ?thesis
    by simp
qed

section \<open>Capacity and the index computation\<close>



end
